theory Spec2Isabelle
  imports Complex_Main "HOL-Library.Multiset" "HOL-Library.Product_Lexorder"
begin

section \<open>Python values used by the mixer\<close>

text \<open>
  The exceptions the modelled code can raise: \<open>ValueError\<close> (from \<^verbatim>\<open>int(...)\<close> and
  \<^verbatim>\<open>list.remove\<close>) and \<open>IndexError\<close> (from indexing). A computation that may raise
  returns \<open>error + 'a\<close>, with \<open>Inl\<close> for the exception.

  Key strings are modelled as \<open>string\<close>, that is as ASCII text; Python's numbers
  (\<^verbatim>\<open>int\<close> and \<^verbatim>\<open>float\<close> alike) are modelled as exact integers and reals, so the
  rounding of floating-point arithmetic is outside the model.
\<close>

datatype error = ValueError | IndexError

definition and_then :: "error + 'a \<Rightarrow> ('a \<Rightarrow> error + 'b) \<Rightarrow> error + 'b" where
  "and_then m f = (case m of Inl e \<Rightarrow> Inl e | Inr x \<Rightarrow> f x)"

text \<open>ASCII white space as \<^verbatim>\<open>int()\<close> strips it: 0x09-0x0D, 0x1C-0x1F and the blank.\<close>

definition is_space :: "char \<Rightarrow> bool" where
  "is_space c = (let n = (of_char c :: nat) in (9 \<le> n \<and> n \<le> 13) \<or> (28 \<le> n \<and> n \<le> 32))"

definition is_digit :: "char \<Rightarrow> bool" where
  "is_digit c = (let n = (of_char c :: nat) in 48 \<le> n \<and> n \<le> 57)"

definition digit_value :: "char \<Rightarrow> nat" where
  "digit_value c = of_char c - 48"

definition is_lower :: "char \<Rightarrow> bool" where
  "is_lower c = (let n = (of_char c :: nat) in 97 \<le> n \<and> n \<le> 122)"

text \<open>
  \<^verbatim>\<open>c.upper()\<close> on one ASCII character: a lower-case letter loses 32, which for the codes
  97..122 is clearing bit 5; every other character is unchanged.
\<close>

definition upper_char :: "char \<Rightarrow> char" where
  "upper_char c =
     (if is_lower c
      then (case c of Char b0 b1 b2 b3 b4 b5 b6 b7 \<Rightarrow> Char b0 b1 b2 b3 b4 False b6 b7)
      else c)"

definition strip :: "string \<Rightarrow> string" where
  "strip s = rev (dropWhile is_space (rev (dropWhile is_space s)))"

text \<open>
  The digits of a decimal literal after its first digit: digits, with single underscores
  allowed between two digits. \<open>acc\<close> is the value read so far.
\<close>

fun digits_tail :: "nat \<Rightarrow> string \<Rightarrow> nat option" where
  "digits_tail acc [] = Some acc"
| "digits_tail acc [c] = (if is_digit c then Some (acc * 10 + digit_value c) else None)"
| "digits_tail acc (c # d # cs) =
     (if is_digit c then digits_tail (acc * 10 + digit_value c) (d # cs)
      else if c = CHR ''_'' \<and> is_digit d then digits_tail (acc * 10 + digit_value d) cs
      else None)"

definition digits :: "string \<Rightarrow> nat option" where
  "digits s = (case s of [] \<Rightarrow> None
     | c # cs \<Rightarrow> if is_digit c then digits_tail (digit_value c) cs else None)"

text \<open>
  \<^verbatim>\<open>int(s)\<close> for a string, base 10: surrounding white space is stripped, one sign is
  allowed, then comes a decimal literal. \<open>None\<close> stands for the \<^verbatim>\<open>ValueError\<close> it raises.
\<close>

definition py_int :: "string \<Rightarrow> int option" where
  "py_int s =
     (case strip s of [] \<Rightarrow> None
      | c # cs \<Rightarrow>
          if c = CHR ''-'' then map_option (\<lambda>n. - int n) (digits cs)
          else if c = CHR ''+'' then map_option int (digits cs)
          else map_option int (digits (c # cs)))"

definition py_index :: "'a list \<Rightarrow> nat \<Rightarrow> error + 'a" where
  "py_index xs i = (if i < length xs then Inr (xs ! i) else Inl IndexError)"

section \<open>camelot\_utilities.py\<close>

text \<open>
  \<^verbatim>\<open>num = int(key[:-1]); letter = key[-1].upper(); return num, letter\<close>.
  The conversion is evaluated first, so the empty key raises \<^verbatim>\<open>ValueError\<close> there.
\<close>

definition parse_camelot :: "string \<Rightarrow> error + int \<times> char" where
  "parse_camelot key =
     (case py_int (butlast key) of
        None \<Rightarrow> Inl ValueError
      | Some num \<Rightarrow>
          if key = [] then Inl IndexError else Inr (num, upper_char (last key)))"

text \<open>\<^verbatim>\<open>((num - 1 + step) % 12) + 1\<close>; Python's \<^verbatim>\<open>%\<close> with a positive modulus is \<open>mod\<close>.\<close>

definition camelot_increment :: "int \<Rightarrow> int \<Rightarrow> int" where
  "camelot_increment num step = ((num - 1 + step) mod 12) + 1"

section \<open>camelot\_rules.py\<close>

definition is_perfect_mix :: "string \<Rightarrow> string \<Rightarrow> bool" where
  "is_perfect_mix k1 k2 = (k1 = k2)"

definition is_plus1_mix :: "string \<Rightarrow> string \<Rightarrow> error + bool" where
  "is_plus1_mix k1 k2 =
     and_then (parse_camelot k1) (\<lambda>(n1, l1).
     and_then (parse_camelot k2) (\<lambda>(n2, l2).
       Inr (l1 = l2 \<and> n2 = camelot_increment n1 1)))"

definition is_minus1_mix :: "string \<Rightarrow> string \<Rightarrow> error + bool" where
  "is_minus1_mix k1 k2 =
     and_then (parse_camelot k1) (\<lambda>(n1, l1).
     and_then (parse_camelot k2) (\<lambda>(n2, l2).
       Inr (l1 = l2 \<and> n2 = camelot_increment n1 (- 1))))"

definition is_energy_boost :: "string \<Rightarrow> string \<Rightarrow> error + bool" where
  "is_energy_boost k1 k2 =
     and_then (parse_camelot k1) (\<lambda>(n1, l1).
     and_then (parse_camelot k2) (\<lambda>(n2, l2).
       Inr (l1 = l2 \<and> n2 = camelot_increment n1 2)))"

definition is_scale_change :: "string \<Rightarrow> string \<Rightarrow> error + bool" where
  "is_scale_change k1 k2 =
     and_then (parse_camelot k1) (\<lambda>(n1, l1).
     and_then (parse_camelot k2) (\<lambda>(n2, l2).
       Inr (n1 = n2 \<and> l1 \<noteq> l2)))"

definition is_diagonal_mix :: "string \<Rightarrow> string \<Rightarrow> error + bool" where
  "is_diagonal_mix k1 k2 =
     and_then (parse_camelot k1) (\<lambda>(n1, l1).
     and_then (parse_camelot k2) (\<lambda>(n2, l2).
       let changed_scale = (l1 \<noteq> l2);
           anticlockwise_step = (n2 = camelot_increment n1 (- 1))
       in Inr (changed_scale \<and> anticlockwise_step)))"

definition is_mood_shifter :: "string \<Rightarrow> string \<Rightarrow> error + bool" where
  "is_mood_shifter k1 k2 =
     and_then (parse_camelot k1) (\<lambda>(n1, l1).
     and_then (parse_camelot k2) (\<lambda>(n2, l2).
       let clockwise_3 = (n2 = camelot_increment n1 3);
           scale_change = (l1 \<noteq> l2)
       in Inr (clockwise_3 \<and> scale_change)))"

definition is_jaws_mix :: "string \<Rightarrow> string \<Rightarrow> error + bool" where
  "is_jaws_mix k1 k2 =
     and_then (parse_camelot k1) (\<lambda>(n1, l1).
     and_then (parse_camelot k2) (\<lambda>(n2, l2).
       let anticlockwise_5 = (n2 = camelot_increment n1 (- 5));
           same_scale = (l1 = l2)
       in Inr (anticlockwise_5 \<and> same_scale)))"

text \<open>The label of the mix type; a key that is \<^verbatim>\<open>None\<close> is \<open>None\<close> here.\<close>

fun classify_mix_type :: "string option \<Rightarrow> string option \<Rightarrow> error + string" where
  "classify_mix_type None _ = Inr ''unknown''"
| "classify_mix_type _ None = Inr ''unknown''"
| "classify_mix_type (Some k1) (Some k2) =
     (if is_perfect_mix k1 k2 then Inr ''perfect mix''
      else and_then (is_plus1_mix k1 k2) (\<lambda>plus1.
        if plus1 then Inr ''+1 mix''
        else and_then (is_minus1_mix k1 k2) (\<lambda>minus1.
          if minus1 then Inr ''-1 mix''
          else and_then (is_energy_boost k1 k2) (\<lambda>boost.
            if boost then Inr ''energy boost''
            else and_then (is_scale_change k1 k2) (\<lambda>change.
              if change then Inr ''scale change''
              else and_then (is_diagonal_mix k1 k2) (\<lambda>diagonal.
                if diagonal then Inr ''diagonal mix''
                else and_then (is_mood_shifter k1 k2) (\<lambda>mood.
                  if mood then Inr ''mood shifter''
                  else and_then (is_jaws_mix k1 k2) (\<lambda>jaws.
                    if jaws then Inr ''jaws mix''
                    else Inr ''non-harmonic''))))))))"

section \<open>Track records and scoring\<close>

text \<open>
  A song is a dictionary read from JSON; the mixer reads its fields with \<^verbatim>\<open>.get\<close>, so a
  missing field and a \<^verbatim>\<open>null\<close> one are both \<open>None\<close>. Any further field is carried in
  the record's extension.
\<close>

record track =
  song :: "string option"
  artist :: "string option"
  bpm :: "real option"
  key :: "string option"

text \<open>
  \<^verbatim>\<open>MIX_SCORES\<close>; camelot\_mixer\_bpm\_first.py and camelot\_mixer\_harmonics\_first.py each
  define this same table.
\<close>

definition MIX_SCORES :: "(string \<times> real) list" where
  "MIX_SCORES =
     [(''perfect mix'', 5.0),
      (''+1 mix'', 4.0),
      (''-1 mix'', 4.0),
      (''energy boost'', 3.0),
      (''scale change'', 3.0),
      (''diagonal mix'', 2.0),
      (''mood shifter'', 2.0),
      (''jaws mix'', 1.0),
      (''non-harmonic'', 0.0),
      (''unknown'', 0.0)]"

text \<open>\<^verbatim>\<open>MIX_SCORES.get(mix_type, 0.0)\<close>\<close>

definition mix_score :: "string \<Rightarrow> real" where
  "mix_score mix_type = (case map_of MIX_SCORES mix_type of None \<Rightarrow> 0.0 | Some v \<Rightarrow> v)"

text \<open>camelot\_mixer\_bpm\_first.py, \<^verbatim>\<open>transition_score(song_a, song_b, weight_bpm=0.40)\<close>\<close>

definition transition_score_bpm_first ::
  "'m track_scheme \<Rightarrow> 'm track_scheme \<Rightarrow> real \<Rightarrow> error + real \<times> string" where
  "transition_score_bpm_first song_a song_b weight_bpm =
     (let key_a = key song_a; key_b = key song_b;
          bpm_a = bpm song_a; bpm_b = bpm song_b
      in and_then (classify_mix_type key_a key_b) (\<lambda>mix_type.
           let harmonic = mix_score mix_type;
               bpm_score =
                 (case (bpm_a, bpm_b) of
                    (Some a, Some b) \<Rightarrow> (let diff = \<bar>b - a\<bar> in max 0.0 (10.0 - diff))
                  | _ \<Rightarrow> 0.0);
               score = bpm_score * weight_bpm + harmonic * (1 - weight_bpm)
           in Inr (score, mix_type)))"

text \<open>camelot\_mixer\_harmonics\_first.py, \<^verbatim>\<open>transition_score(song_a, song_b, weight_bpm=0.15)\<close>\<close>

definition transition_score_harmonics_first ::
  "'m track_scheme \<Rightarrow> 'm track_scheme \<Rightarrow> real \<Rightarrow> error + real \<times> string" where
  "transition_score_harmonics_first song_a song_b weight_bpm =
     (let key_a = key song_a; key_b = key song_b;
          bpm_a = bpm song_a; bpm_b = bpm song_b
      in and_then (classify_mix_type key_a key_b) (\<lambda>mix_type.
           let base = mix_score mix_type * 10.0;
               bpm_penalty =
                 (case (bpm_a, bpm_b) of
                    (Some a, Some b) \<Rightarrow> (let bpm_diff = \<bar>b - a\<bar> in bpm_diff * weight_bpm)
                  | _ \<Rightarrow> 0.0);
               score = base - bpm_penalty
           in Inr (score, mix_type)))"

section \<open>The path builders\<close>

text \<open>
  The sort key \<^verbatim>\<open>float("inf") if s.get("bpm") is None else s["bpm"]\<close>. Pairs are ordered
  lexicographically and \<open>False < True\<close>, so \<open>(True, 0)\<close> is the infinity above every
  \<open>(False, b)\<close>. \<^verbatim>\<open>sorted\<close> is stable, as \<open>sort_key\<close> is.
\<close>

definition bpm_sort_key :: "'m track_scheme \<Rightarrow> bool \<times> real" where
  "bpm_sort_key s = (case bpm s of None \<Rightarrow> (True, 0) | Some b \<Rightarrow> (False, b))"

definition sort_by_bpm :: "'m track_scheme list \<Rightarrow> 'm track_scheme list" where
  "sort_by_bpm songs = sort_key bpm_sort_key songs"

text \<open>
  \<^verbatim>\<open>score > best_score\<close>, where \<open>best_score\<close> starts as \<^verbatim>\<open>float("-inf")\<close>, here \<open>None\<close>.
\<close>

definition exceeds :: "real \<Rightarrow> real option \<Rightarrow> bool" where
  "exceeds score best_score = (case best_score of None \<Rightarrow> True | Some b \<Rightarrow> b < score)"

text \<open>
  The inner \<^verbatim>\<open>for idx in remaining\<close> loop of both builders, on the state
  \<open>(best_idx, best_score)\<close>. \<open>ts\<close> is the module's \<^verbatim>\<open>transition_score\<close> with its default
  weight. (The harmonic-first loop also assigns \<^verbatim>\<open>best_type\<close>, which is never read.)
\<close>

fun scan_remaining ::
  "('a \<Rightarrow> 'a \<Rightarrow> error + real \<times> string) \<Rightarrow> 'a list \<Rightarrow> 'a \<Rightarrow> nat list \<Rightarrow>
     nat option \<times> real option \<Rightarrow> error + nat option \<times> real option" where
  "scan_remaining ts songs_sorted curr_song [] best = Inr best"
| "scan_remaining ts songs_sorted curr_song (idx # rest) (best_idx, best_score) =
     and_then (py_index songs_sorted idx) (\<lambda>candidate.
     and_then (ts curr_song candidate) (\<lambda>(score, mix_type).
       scan_remaining ts songs_sorted curr_song rest
         (if exceeds score best_score then (Some idx, Some score)
          else (best_idx, best_score))))"

text \<open>
  The \<^verbatim>\<open>while remaining\<close> loop of both builders, on the state \<open>(path, remaining)\<close>; it
  returns \<open>path\<close> as the loop leaves it. \<^verbatim>\<open>remaining.remove(x)\<close> raises \<^verbatim>\<open>ValueError\<close>
  when \<open>x\<close> is not in the list, which is where a \<open>best_idx\<close> that is still \<^verbatim>\<open>None\<close> ends.
\<close>

function greedy_loop ::
  "('a \<Rightarrow> 'a \<Rightarrow> error + real \<times> string) \<Rightarrow> 'a list \<Rightarrow> nat list \<Rightarrow> nat list \<Rightarrow>
     error + nat list" where
  "greedy_loop ts songs_sorted path remaining =
     (if remaining = [] then Inr path
      else if path = [] then Inl IndexError
      else
        case py_index songs_sorted (last path) of
          Inl e \<Rightarrow> Inl e
        | Inr curr_song \<Rightarrow>
            (case scan_remaining ts songs_sorted curr_song remaining (None, None) of
               Inl e \<Rightarrow> Inl e
             | Inr (None, best_score) \<Rightarrow> Inl ValueError
             | Inr (Some best_idx, best_score) \<Rightarrow>
                 if best_idx \<in> set remaining
                 then greedy_loop ts songs_sorted (path @ [best_idx]) (remove1 best_idx remaining)
                 else Inl ValueError))"
  by pat_completeness auto
termination
  by (relation "measure (\<lambda>(ts, songs_sorted, path, remaining). length remaining)")
     (auto simp: length_remove1 intro: length_pos_if_in_set)

text \<open>\<^verbatim>\<open>[songs_sorted[i] for i in path]\<close>\<close>

fun index_all :: "'a list \<Rightarrow> nat list \<Rightarrow> error + 'a list" where
  "index_all songs_sorted [] = Inr []"
| "index_all songs_sorted (i # path) =
     and_then (py_index songs_sorted i) (\<lambda>s.
     and_then (index_all songs_sorted path) (\<lambda>rest. Inr (s # rest)))"

text \<open>
  \<^verbatim>\<open>build_bpm_first_path\<close>, split at its last line: \<open>bpm_first_indices\<close> is \<open>path\<close> when
  the loop ends, for a non-empty input. \<^verbatim>\<open>remaining.pop(0)\<close> raises \<^verbatim>\<open>IndexError\<close> on an
  empty list.
\<close>

definition bpm_first_indices :: "'m track_scheme list \<Rightarrow> error + nat list" where
  "bpm_first_indices songs =
     (let songs_sorted = sort_by_bpm songs;
          remaining = [0..<length songs_sorted]
      in case remaining of
           [] \<Rightarrow> Inl IndexError
         | current_idx # remaining' \<Rightarrow>
             greedy_loop (\<lambda>a b. transition_score_bpm_first a b 0.40) songs_sorted
               [current_idx] remaining')"

definition build_bpm_first_path :: "'m track_scheme list \<Rightarrow> error + 'm track_scheme list" where
  "build_bpm_first_path songs =
     (if songs = [] then Inr []
      else and_then (bpm_first_indices songs) (index_all (sort_by_bpm songs)))"

text \<open>\<^verbatim>\<open>if songs_sorted[idx].get("key")\<close>: \<^verbatim>\<open>None\<close> and the empty string are false.\<close>

definition truthy :: "string option \<Rightarrow> bool" where
  "truthy k = (k \<noteq> None \<and> k \<noteq> Some [])"

text \<open>The search for \<^verbatim>\<open>start_idx\<close>: the first index whose song has a key, or \<^verbatim>\<open>None\<close>.\<close>

fun find_start :: "'m track_scheme list \<Rightarrow> nat list \<Rightarrow> error + nat option" where
  "find_start songs_sorted [] = Inr None"
| "find_start songs_sorted (idx # rest) =
     and_then (py_index songs_sorted idx) (\<lambda>s.
       if truthy (key s) then Inr (Some idx) else find_start songs_sorted rest)"

text \<open>
  \<^verbatim>\<open>build_harmonic_path\<close>, split the same way: \<open>harmonic_indices\<close> is \<open>None\<close> when no song
  has a key (the builder then returns \<open>songs_sorted\<close>), and else \<open>path_indices\<close> when the
  loop ends.
\<close>

definition harmonic_indices :: "'m track_scheme list \<Rightarrow> error + nat list option" where
  "harmonic_indices songs =
     (let songs_sorted = sort_by_bpm songs;
          remaining_indices = [0..<length songs_sorted]
      in and_then (find_start songs_sorted remaining_indices) (\<lambda>start_idx.
           case start_idx of
             None \<Rightarrow> Inr None
           | Some start \<Rightarrow>
               if start \<in> set remaining_indices
               then and_then
                      (greedy_loop (\<lambda>a b. transition_score_harmonics_first a b 0.15) songs_sorted
                         [start] (remove1 start remaining_indices))
                      (\<lambda>path_indices. Inr (Some path_indices))
               else Inl ValueError))"

definition build_harmonic_path :: "'m track_scheme list \<Rightarrow> error + 'm track_scheme list" where
  "build_harmonic_path songs =
     (if songs = [] then Inr []
      else and_then (harmonic_indices songs) (\<lambda>r.
        case r of
          None \<Rightarrow> Inr (sort_by_bpm songs)
        | Some path_indices \<Rightarrow> index_all (sort_by_bpm songs) path_indices))"

section \<open>The specification's classifier\<close>

text \<open>
  The specification's own words, to compare the code with: \<open>increment\<close> on the 12-slot
  ring, and the classifier as an ordered list of rules of which the first that matches
  gives the category. A decoded key is taken with the key string it was decoded from;
  "keys identical" compares these strings.
\<close>

definition increment :: "int \<Rightarrow> int \<Rightarrow> int" where
  "increment position step = ((position - 1 + step) mod 12) + 1"

definition spec_rules :: "(string \<times> (string \<times> int \<times> char \<Rightarrow> string \<times> int \<times> char \<Rightarrow> bool)) list" where
  "spec_rules =
     [(''perfect mix'', \<lambda>(keyA, positionA, scaleA) (keyB, positionB, scaleB).
         keyA = keyB),
      (''+1 mix'', \<lambda>(keyA, positionA, scaleA) (keyB, positionB, scaleB).
         scaleA = scaleB \<and> positionB = increment positionA 1),
      (''-1 mix'', \<lambda>(keyA, positionA, scaleA) (keyB, positionB, scaleB).
         scaleA = scaleB \<and> positionB = increment positionA (- 1)),
      (''energy boost'', \<lambda>(keyA, positionA, scaleA) (keyB, positionB, scaleB).
         scaleA = scaleB \<and> positionB = increment positionA 2),
      (''scale change'', \<lambda>(keyA, positionA, scaleA) (keyB, positionB, scaleB).
         positionA = positionB \<and> scaleA \<noteq> scaleB),
      (''diagonal mix'', \<lambda>(keyA, positionA, scaleA) (keyB, positionB, scaleB).
         scaleA \<noteq> scaleB \<and> positionB = increment positionA (- 1)),
      (''mood shifter'', \<lambda>(keyA, positionA, scaleA) (keyB, positionB, scaleB).
         scaleA \<noteq> scaleB \<and> positionB = increment positionA 3),
      (''jaws mix'', \<lambda>(keyA, positionA, scaleA) (keyB, positionB, scaleB).
         scaleA = scaleB \<and> positionB = increment positionA (- 5))]"

definition spec_classify :: "string \<times> int \<times> char \<Rightarrow> string \<times> int \<times> char \<Rightarrow> string" where
  "spec_classify a b =
     (case find (\<lambda>(label, rule). rule a b) spec_rules of
        Some (label, rule) \<Rightarrow> label
      | None \<Rightarrow> ''non-harmonic'')"




section \<open>The specification's scores\<close>





section \<open>Vocabulary for the path builders\<close>

text \<open>The score of a \<^verbatim>\<open>transition_score\<close> result that did not raise.\<close>

definition score_value :: "error + real \<times> string \<Rightarrow> real" where
  "score_value r = (case r of Inl e \<Rightarrow> 0 | Inr (score, mix_type) \<Rightarrow> score)"

text \<open>
  \<open>b\<close> wins among the candidates, read in their order: it is one of them, none scores
  higher, and every candidate before it scores strictly lower.
\<close>

definition wins :: "(nat \<Rightarrow> real) \<Rightarrow> nat list \<Rightarrow> nat \<Rightarrow> bool" where
  "wins f candidates b =
     (b \<in> set candidates
      \<and> (\<forall>c\<in>set candidates. f c \<le> f b)
      \<and> (\<forall>c\<in>set (takeWhile (\<lambda>c. c \<noteq> b) candidates). f c < f b))"

text \<open>
  The pool when \<open>k\<close> indices are on the path: the indices \<open>0..<n\<close> of the BPM-sorted
  list not among the first \<open>k\<close> of the path, in increasing order.
\<close>

definition remaining_after :: "nat \<Rightarrow> nat list \<Rightarrow> nat \<Rightarrow> nat list" where
  "remaining_after n path k = filter (\<lambda>j. j \<notin> set (take k path)) [0..<n]"

text \<open>
  Position \<open>k\<close> of the path holds the winner of the pool of that moment, scored against
  the track at position \<open>k - 1\<close>.
\<close>

definition greedy_step ::
  "('a \<Rightarrow> 'a \<Rightarrow> error + real \<times> string) \<Rightarrow> 'a list \<Rightarrow> nat list \<Rightarrow> nat \<Rightarrow> bool" where
  "greedy_step ts songs_sorted path k =
     wins (\<lambda>c. score_value (ts (songs_sorted ! (path ! (k - 1))) (songs_sorted ! c)))
       (remaining_after (length songs_sorted) path k) (path ! k)"

text \<open>
  The builders' precondition: every record has a BPM and a key that \<open>parse_camelot\<close>
  decodes. \<open>keys_usable\<close> is the weaker condition under which no score raises: every key
  is absent or decodable.
\<close>

definition key_decodable :: "string option \<Rightarrow> bool" where
  "key_decodable k = (case k of None \<Rightarrow> False | Some s \<Rightarrow> \<not> isl (parse_camelot s))"


definition keys_usable :: "'m track_scheme list \<Rightarrow> bool" where
  "keys_usable songs = (\<forall>s\<in>set songs. key s = None \<or> key_decodable (key s))"


section \<open>Example playlists\<close>



text \<open>A playlist without any key, and one whose lowest BPM has no key.\<close>

definition no_key_songs :: "track list" where
  "no_key_songs =
     [\<lparr>song = Some ''a'', artist = None, bpm = Some 130, key = None\<rparr>,
      \<lparr>song = Some ''b'', artist = None, bpm = Some 120, key = Some []\<rparr>]"

definition late_key_songs :: "track list" where
  "late_key_songs =
     [\<lparr>song = Some ''a'', artist = None, bpm = Some 120, key = Some ''9A''\<rparr>,
      \<lparr>song = Some ''b'', artist = None, bpm = Some 100, key = None\<rparr>,
      \<lparr>song = Some ''c'', artist = None, bpm = Some 110, key = Some ''8A''\<rparr>]"


section \<open>The key model\<close>

lemma camelot_increment_range: "1 \<le> camelot_increment p s \<and> camelot_increment p s \<le> 12"
proof -
  have "0 \<le> (p - 1 + s) mod 12" "(p - 1 + s) mod 12 < 12" by simp_all
  then show ?thesis unfolding camelot_increment_def by linarith
qed

lemma camelot_increment_congruent: "(camelot_increment p s - (p + s)) mod 12 = 0"
proof -
  have "((p - 1 + s) mod 12 + 1 - (p + s)) mod 12 = ((p - 1 + s) mod 12 - (p - 1 + s)) mod 12"
    by (simp add: algebra_simps)
  also have "\<dots> = ((p - 1 + s) - (p - 1 + s)) mod 12"
    by (rule mod_diff_left_eq)
  finally show ?thesis by (simp add: camelot_increment_def)
qed

lemma camelot_increment_inverse:
  assumes "1 \<le> p" and "p \<le> 12"
  shows "camelot_increment (camelot_increment p s) (- s) = p"
proof -
  have "((p - 1 + s) mod 12 - s) mod 12 = (p - 1 + s - s) mod 12"
    by (rule mod_diff_left_eq)
  also have "\<dots> = p - 1"
    using assms by simp
  finally show ?thesis by (simp add: camelot_increment_def)
qed

lemma camelot_increment_bij: "bij_betw (\<lambda>q. camelot_increment q s) {1..12} {1..12}"
proof (rule bij_betw_byWitness [where f' = "\<lambda>q. camelot_increment q (- s)"])
  show "\<forall>a\<in>{1..12}. camelot_increment (camelot_increment a s) (- s) = a"
    by (simp add: camelot_increment_inverse)
  show "\<forall>a'\<in>{1..12}. camelot_increment (camelot_increment a' (- s)) s = a'"
    using camelot_increment_inverse [of _ "- s"] by simp
  show "(\<lambda>q. camelot_increment q s) ` {1..12} \<subseteq> {1..12}"
    using camelot_increment_range by auto
  show "(\<lambda>q. camelot_increment q (- s)) ` {1..12} \<subseteq> {1..12}"
    using camelot_increment_range by auto
qed

text \<open>
  Claim C8. \<open>camelot_increment\<close> computes \<open>((position - 1 + step) mod 12) + 1\<close>, for a
  negative step too: the result lies in 1..12 and is congruent to \<open>position + step\<close>
  modulo 12. For every fixed step it is a bijection on 1..12, and stepping back by \<open>- s\<close>
  returns to every \<open>p\<close> of 1..12.
\<close>

theorem camelot_increment_ring:
  "camelot_increment p s = ((p - 1 + s) mod 12) + 1
   \<and> 1 \<le> camelot_increment p s \<and> camelot_increment p s \<le> 12
   \<and> (camelot_increment p s - (p + s)) mod 12 = 0
   \<and> bij_betw (\<lambda>q. camelot_increment q s) {1..12} {1..12}
   \<and> (1 \<le> p \<and> p \<le> 12 \<longrightarrow> camelot_increment (camelot_increment p s) (- s) = p)"
  using camelot_increment_range [of p s] camelot_increment_bij [of s]
    camelot_increment_inverse [of p s] camelot_increment_congruent [of p s]
  by (simp add: camelot_increment_def [of p s])

text \<open>
  Position 3 and step \<open>- 7\<close>: the wheel wraps to 8, and seven steps on it is 3 again.
\<close>

theorem camelot_increment_ring_witness:
  "camelot_increment 3 (- 7) = 8
   \<and> camelot_increment (camelot_increment 3 (- 7)) (- (- 7)) = 3
   \<and> bij_betw (\<lambda>q. camelot_increment q (- 7)) {1..12} {1..12}"
  using camelot_increment_ring [of 3 "- 7"] by (simp add: camelot_increment_def)


section \<open>Decoding keys\<close>

lemmas key_eval = py_int_def strip_def digits_def is_digit_def digit_value_def is_space_def
  parse_camelot_def upper_char_def is_lower_def

lemmas rule_defs = is_perfect_mix_def is_plus1_mix_def is_minus1_mix_def is_energy_boost_def
  is_scale_change_def is_diagonal_mix_def is_mood_shifter_def is_jaws_mix_def






lemma set_strip: "set (strip s) \<subseteq> set s"
  unfolding strip_def by (metis set_dropWhileD set_rev subsetI)

lemma py_int_no_digit:
  assumes "\<forall>c\<in>set s. \<not> is_digit c"
  shows "py_int s = None"
proof (cases "strip s")
  case Nil
  then show ?thesis by (simp add: py_int_def)
next
  case (Cons c cs)
  then have "\<forall>x\<in>set (c # cs). \<not> is_digit x" using assms set_strip [of s] by auto
  then have "digits cs = None" "digits (c # cs) = None"
    by (cases cs; simp add: digits_def)+
  then show ?thesis by (simp add: py_int_def Cons)
qed

lemma py_int_Nil: "py_int [] = None"
  by (simp add: py_int_no_digit)


lemma parse_camelot_cases:
  "parse_camelot k = Inl ValueError \<or> (\<exists>n l. parse_camelot k = Inr (n, l))"
  by (auto simp: parse_camelot_def py_int_Nil split: option.splits)





section \<open>The classifier\<close>

lemma classify_decoded:
  assumes "parse_camelot k1 = Inr (n1, l1)" and "parse_camelot k2 = Inr (n2, l2)"
  shows "classify_mix_type (Some k1) (Some k2) = Inr (spec_classify (k1, n1, l1) (k2, n2, l2))"
  using assms
  by (simp add: rule_defs and_then_def spec_classify_def spec_rules_def increment_def
      camelot_increment_def)

text \<open>
  Claim C10. Two present keys that are the same string are a perfect mix, whether or not
  the string can be decoded: the comparison comes before any decoding. \<open>XX\<close> and the
  empty string are such strings that do not decode.
\<close>

theorem classify_identical_keys:
  "classify_mix_type (Some k) (Some k) = Inr ''perfect mix''
   \<and> parse_camelot ''XX'' = Inl ValueError
   \<and> parse_camelot [] = Inl ValueError"
proof -
  have "parse_camelot ''XX'' = Inl ValueError" by (simp add: key_eval)
  moreover have "parse_camelot [] = Inl ValueError" by (simp add: key_eval)
  ultimately show ?thesis by (simp add: is_perfect_mix_def)
qed

text \<open>
  The undecodable keys \<open>XX\<close> and the empty string, each against itself.
\<close>

theorem classify_identical_keys_witness:
  "classify_mix_type (Some ''XX'') (Some ''XX'') = Inr ''perfect mix''
   \<and> classify_mix_type (Some []) (Some []) = Inr ''perfect mix''
   \<and> parse_camelot ''XX'' = Inl ValueError"
  using classify_identical_keys [of "''XX''"] classify_identical_keys [of "[]"] by blast

lemma classify_examples:
  "classify_mix_type (Some ''8A'') (Some ''8A'') = Inr ''perfect mix''"
  "classify_mix_type (Some ''8A'') (Some ''9A'') = Inr ''+1 mix''"
  "classify_mix_type (Some ''9A'') (Some ''8A'') = Inr ''-1 mix''"
  "classify_mix_type (Some ''8A'') (Some ''10A'') = Inr ''energy boost''"
  "classify_mix_type (Some ''8A'') (Some ''8B'') = Inr ''scale change''"
  "classify_mix_type (Some ''9A'') (Some ''8B'') = Inr ''diagonal mix''"
  "classify_mix_type (Some ''1B'') (Some ''4A'') = Inr ''mood shifter''"
  "classify_mix_type (Some ''1A'') (Some ''8A'') = Inr ''jaws mix''"
  "classify_mix_type (Some ''8A'') (Some ''3B'') = Inr ''non-harmonic''"
  by (simp_all add: rule_defs key_eval and_then_def camelot_increment_def)

lemma classify_None_right: "classify_mix_type a None = Inr ''unknown''"
  by (cases a) simp_all

text \<open>
  The first rule compares the key strings as they are: two spellings of one key are not a
  perfect mix, and no later rule matches them.
\<close>

lemma classify_spellings:
  "classify_mix_type (Some ''8a'') (Some ''8A'') = Inr ''non-harmonic''"
  "classify_mix_type (Some ''08A'') (Some ''8A'') = Inr ''non-harmonic''"
  by (simp_all add: rule_defs key_eval and_then_def camelot_increment_def)

text \<open>
  Claim C1. For two present keys that decode, \<open>classify_mix_type\<close> returns the category of
  the first rule that matches, in the order perfect mix, +1 mix, -1 mix, energy boost,
  scale change, diagonal mix, mood shifter, jaws mix, and non-harmonic when none does,
  each rule being the stated condition on scales and circular increments. A key that is
  absent gives unknown. The ten example equations hold.
\<close>

theorem classify_mix_type_priority:
  "(\<forall>n1 l1 n2 l2. parse_camelot k1 = Inr (n1, l1) \<longrightarrow> parse_camelot k2 = Inr (n2, l2) \<longrightarrow>
      classify_mix_type (Some k1) (Some k2) = Inr (spec_classify (k1, n1, l1) (k2, n2, l2)))
   \<and> classify_mix_type None b = Inr ''unknown''
   \<and> classify_mix_type a None = Inr ''unknown''
   \<and> classify_mix_type (Some ''8A'') (Some ''8A'') = Inr ''perfect mix''
   \<and> classify_mix_type (Some ''8A'') (Some ''9A'') = Inr ''+1 mix''
   \<and> classify_mix_type (Some ''9A'') (Some ''8A'') = Inr ''-1 mix''
   \<and> classify_mix_type (Some ''8A'') (Some ''10A'') = Inr ''energy boost''
   \<and> classify_mix_type (Some ''8A'') (Some ''8B'') = Inr ''scale change''
   \<and> classify_mix_type (Some ''9A'') (Some ''8B'') = Inr ''diagonal mix''
   \<and> classify_mix_type (Some ''1B'') (Some ''4A'') = Inr ''mood shifter''
   \<and> classify_mix_type (Some ''1A'') (Some ''8A'') = Inr ''jaws mix''
   \<and> classify_mix_type (Some ''8A'') (Some ''3B'') = Inr ''non-harmonic''
   \<and> classify_mix_type None (Some ''8A'') = Inr ''unknown''"
  using classify_decoded [of k1 _ _ k2] classify_None_right [of a] classify_examples
  by (intro conjI allI impI) simp_all

text \<open>
  The keys \<open>9A\<close> and \<open>8B\<close> decode, and the first rule that matches them is the diagonal
  mix.
\<close>

theorem classify_mix_type_priority_witness:
  "parse_camelot ''9A'' = Inr (9, CHR ''A'') \<and> parse_camelot ''8B'' = Inr (8, CHR ''B'')
   \<and> classify_mix_type (Some ''9A'') (Some ''8B'')
       = Inr (spec_classify (''9A'', 9, CHR ''A'') (''8B'', 8, CHR ''B''))
   \<and> spec_classify (''9A'', 9, CHR ''A'') (''8B'', 8, CHR ''B'') = ''diagonal mix''"
proof -
  have a: "parse_camelot ''9A'' = Inr (9, CHR ''A'')" by (simp add: key_eval)
  have b: "parse_camelot ''8B'' = Inr (8, CHR ''B'')" by (simp add: key_eval)
  have c: "spec_classify (''9A'', 9, CHR ''A'') (''8B'', 8, CHR ''B'') = ''diagonal mix''"
    by (simp add: spec_classify_def spec_rules_def increment_def)
  from classify_mix_type_priority [of "''9A''" "''8B''"] a b
  have "classify_mix_type (Some ''9A'') (Some ''8B'')
       = Inr (spec_classify (''9A'', 9, CHR ''A'') (''8B'', 8, CHR ''B''))"
    by blast
  with a b c show ?thesis by simp
qed

section \<open>Scoring\<close>













section \<open>The greedy loop\<close>

lemma wins_single: "wins f [c] c"
  by (simp add: wins_def)

lemma wins_snoc_new:
  assumes "wins f seen b" and "f b < f c"
  shows "wins f (seen @ [c]) c"
proof -
  have "c \<notin> set seen" using assms by (auto simp: wins_def)
  then have "takeWhile (\<lambda>x. x \<noteq> c) (seen @ [c]) = seen"
    by (induction seen) auto
  then show ?thesis using assms by (fastforce simp: wins_def)
qed

lemma wins_snoc_keep:
  assumes "wins f seen b" and "\<not> f b < f c"
  shows "wins f (seen @ [c]) b"
proof -
  have "b \<in> set seen" using assms by (simp add: wins_def)
  then have "takeWhile (\<lambda>x. x \<noteq> b) (seen @ [c]) = takeWhile (\<lambda>x. x \<noteq> b) seen"
    by (induction seen) auto
  then show ?thesis using assms by (auto simp: wins_def)
qed

lemma scan_remaining_step:
  assumes "idx < length xs" and "ts cur (xs ! idx) = Inr (s, t)"
  shows "scan_remaining ts xs cur (idx # rest) (bi, bs) =
     scan_remaining ts xs cur rest
       (if exceeds (score_value (ts cur (xs ! idx))) bs
        then (Some idx, Some (score_value (ts cur (xs ! idx)))) else (bi, bs))"
  using assms by (simp add: py_index_def and_then_def score_value_def)

lemma scan_remaining_wins:
  assumes "\<forall>c\<in>set rem. c < length xs \<and> (\<exists>s t. ts cur (xs ! c) = Inr (s, t))"
    and "wins (\<lambda>c. score_value (ts cur (xs ! c))) seen b"
  shows "\<exists>b'. scan_remaining ts xs cur rem (Some b, Some (score_value (ts cur (xs ! b))))
            = Inr (Some b', Some (score_value (ts cur (xs ! b'))))
          \<and> wins (\<lambda>c. score_value (ts cur (xs ! c))) (seen @ rem) b'"
  using assms
proof (induction rem arbitrary: seen b)
  case Nil
  then show ?case by simp
next
  case (Cons c rem)
  let ?f = "\<lambda>c. score_value (ts cur (xs ! c))"
  from Cons.prems(1) obtain s t where c: "c < length xs" "ts cur (xs ! c) = Inr (s, t)"
    by auto
  note step = scan_remaining_step [where ts = ts and xs = xs and cur = cur, OF c]
  have rest: "\<forall>c\<in>set rem. c < length xs \<and> (\<exists>s t. ts cur (xs ! c) = Inr (s, t))"
    using Cons.prems(1) by simp
  show ?case
  proof (cases "?f b < ?f c")
    case True
    then have w: "wins ?f (seen @ [c]) c" using Cons.prems(2) by (rule wins_snoc_new [rotated])
    from Cons.IH [OF rest w] True show ?thesis
      unfolding step by (simp add: exceeds_def)
  next
    case False
    then have w: "wins ?f (seen @ [c]) b" using Cons.prems(2) by (rule wins_snoc_keep [rotated])
    from Cons.IH [OF rest w] False show ?thesis
      unfolding step by (simp add: exceeds_def)
  qed
qed

lemma scan_remaining_best:
  assumes "rem \<noteq> []"
    and "\<forall>c\<in>set rem. c < length xs \<and> (\<exists>s t. ts cur (xs ! c) = Inr (s, t))"
  shows "\<exists>b bs. scan_remaining ts xs cur rem (None, None) = Inr (Some b, bs)
          \<and> wins (\<lambda>c. score_value (ts cur (xs ! c))) rem b"
proof -
  let ?f = "\<lambda>c. score_value (ts cur (xs ! c))"
  obtain c cs where rem: "rem = c # cs" using assms(1) by (cases rem) auto
  from assms(2) obtain s t where c: "c < length xs" "ts cur (xs ! c) = Inr (s, t)"
    by (auto simp: rem)
  note step = scan_remaining_step [where ts = ts and xs = xs and cur = cur, OF c]
  have rest: "\<forall>c\<in>set cs. c < length xs \<and> (\<exists>s t. ts cur (xs ! c) = Inr (s, t))"
    using assms(2) by (simp add: rem)
  have "wins ?f [c] c" by (rule wins_single)
  from scan_remaining_wins [where ts = ts and xs = xs and cur = cur, OF rest this]
  show ?thesis
    unfolding rem step by (auto simp: exceeds_def)
qed

declare greedy_loop.simps [simp del]

lemma remove1_filter_distinct:
  assumes "distinct xs"
  shows "remove1 b (filter P xs) = filter (\<lambda>j. P j \<and> j \<noteq> b) xs"
proof -
  have "remove1 b (filter P xs) = removeAll b (filter P xs)"
    using assms by (simp add: distinct_remove1_removeAll)
  also have "\<dots> = filter (\<lambda>j. P j \<and> j \<noteq> b) xs"
    by (induction xs) auto
  finally show ?thesis .
qed

lemma greedy_loop_done: "greedy_loop ts xs path [] = Inr path"
  by (simp add: greedy_loop.simps)

lemma greedy_loop_step:
  assumes "rem \<noteq> []" and "path \<noteq> []" and "last path < length xs"
    and "scan_remaining ts xs (xs ! last path) rem (None, None) = Inr (Some b, bs)"
    and "b \<in> set rem"
  shows "greedy_loop ts xs path rem = greedy_loop ts xs (path @ [b]) (remove1 b rem)"
  using assms by (subst greedy_loop.simps) (simp add: py_index_def)

lemma greedy_loop_total:
  assumes "\<forall>i<length xs. \<forall>j<length xs. \<exists>s t. ts (xs ! i) (xs ! j) = Inr (s, t)"
    and "path \<noteq> []" and "distinct path" and "set path \<subseteq> {..<length xs}"
    and "rem = filter (\<lambda>j. j \<notin> set path) [0..<length xs]"
  shows "\<exists>p. greedy_loop ts xs path rem = Inr p \<and> take (length path) p = path
           \<and> distinct p \<and> set p = {..<length xs}
           \<and> (\<forall>k. length path \<le> k \<and> k < length p \<longrightarrow> greedy_step ts xs p k)"
  using assms(2-)
proof (induction "length rem" arbitrary: path rem)
  case 0
  then have rem: "rem = []" by simp
  have "set path = {..<length xs}"
  proof
    show "set path \<subseteq> {..<length xs}" by (rule "0.prems")
    show "{..<length xs} \<subseteq> set path"
    proof
      fix j assume "j \<in> {..<length xs}"
      then have "j \<in> set [0..<length xs]" by simp
      then show "j \<in> set path"
        using "0.prems"(4) rem by (metis (mono_tags, lifting) filter_empty_conv)
    qed
  qed
  moreover have "\<forall>k. length path \<le> k \<and> k < length path \<longrightarrow> greedy_step ts xs path k"
    by auto
  ultimately show ?case using "0.prems"(2) by (simp add: rem greedy_loop_done)
next
  case (Suc m)
  let ?n = "length xs"
  let ?f = "\<lambda>c. score_value (ts (xs ! last path) (xs ! c))"
  from Suc.hyps(2) have ne: "rem \<noteq> []" by auto
  have last: "last path < ?n" using Suc.prems(1,3) last_in_set by fastforce
  have cands: "\<forall>c\<in>set rem. c < ?n \<and> (\<exists>s t. ts (xs ! last path) (xs ! c) = Inr (s, t))"
    using assms(1) last by (auto simp: Suc.prems(4))
  from scan_remaining_best [where ts = ts and xs = xs and cur = "xs ! last path", OF ne cands]
  obtain b bs
    where scan: "scan_remaining ts xs (xs ! last path) rem (None, None) = Inr (Some b, bs)"
      and wins: "wins ?f rem b"
    by blast
  from wins have b: "b \<in> set rem" by (simp add: wins_def)
  then have b_new: "b \<notin> set path" and b_lt: "b < ?n" by (auto simp: Suc.prems(4))
  have step: "greedy_loop ts xs path rem = greedy_loop ts xs (path @ [b]) (remove1 b rem)"
    using ne Suc.prems(1) last scan b by (rule greedy_loop_step)
  have len: "m = length (remove1 b rem)"
    using Suc.hyps(2) b by (simp add: length_remove1)
  have rem': "remove1 b rem = filter (\<lambda>j. j \<notin> set (path @ [b])) [0..<?n]"
    by (simp add: Suc.prems(4) remove1_filter_distinct conj_commute)
  have "\<exists>p. greedy_loop ts xs (path @ [b]) (remove1 b rem) = Inr p
           \<and> take (length (path @ [b])) p = path @ [b]
           \<and> distinct p \<and> set p = {..<?n}
           \<and> (\<forall>k. length (path @ [b]) \<le> k \<and> k < length p \<longrightarrow> greedy_step ts xs p k)"
    using len _ _ _ rem'
  proof (rule Suc.hyps(1))
    show "path @ [b] \<noteq> []" by simp
    show "distinct (path @ [b])" using Suc.prems(2) b_new by simp
    show "set (path @ [b]) \<subseteq> {..<?n}" using Suc.prems(3) b_lt by simp
  qed
  then obtain p where p: "greedy_loop ts xs (path @ [b]) (remove1 b rem) = Inr p"
    and pre: "take (Suc (length path)) p = path @ [b]"
    and dist: "distinct p" and set: "set p = {..<?n}"
    and steps: "\<forall>k. Suc (length path) \<le> k \<and> k < length p \<longrightarrow> greedy_step ts xs p k"
    by auto
  from pre have lenp: "length path < length p"
    by (metis length_append_singleton length_take lessI min_less_iff_conj)
  from pre have pre': "take (length path) p = path"
    by (metis append_eq_conv_conj butlast_snoc butlast_take diff_Suc_1 length_append_singleton
        length_take min.absorb2 nat_le_linear take_all)
  from pre lenp have at: "p ! length path = b"
    by (metis lessI nth_append_length nth_take)
  have prev: "p ! (length path - 1) = last path"
    using pre' Suc.prems(1) lenp
    by (metis One_nat_def diff_less last_conv_nth length_greater_0_conv nth_take zero_less_one)
  have here: "greedy_step ts xs p (length path)"
    using wins prev by (simp add: greedy_step_def remaining_after_def pre' at Suc.prems(4))
  have "\<forall>k. length path \<le> k \<and> k < length p \<longrightarrow> greedy_step ts xs p k"
  proof (intro allI impI)
    fix k assume k: "length path \<le> k \<and> k < length p"
    show "greedy_step ts xs p k"
    proof (cases "k = length path")
      case True
      then show ?thesis using here by simp
    next
      case False
      then show ?thesis using k steps by simp
    qed
  qed
  then show ?case using step p pre' dist set by simp
qed

section \<open>Running the builders\<close>


lemma classify_total:
  assumes "ka = None \<or> key_decodable ka" and "kb = None \<or> key_decodable kb"
  shows "\<exists>t. classify_mix_type ka kb = Inr t"
proof (cases ka)
  case None
  then show ?thesis by simp
next
  case a: (Some a)
  show ?thesis
  proof (cases kb)
    case None
    then show ?thesis by (simp add: classify_None_right)
  next
    case b: (Some b)
    from assms a b obtain n1 l1 n2 l2
      where "parse_camelot a = Inr (n1, l1)" "parse_camelot b = Inr (n2, l2)"
      using parse_camelot_cases [of a] parse_camelot_cases [of b]
      by (auto simp: key_decodable_def)
    then show ?thesis using classify_decoded a b by blast
  qed
qed

lemma scores_total:
  assumes "keys_usable songs" and "a \<in> set songs" and "b \<in> set songs"
  shows "\<exists>s t. transition_score_bpm_first a b w = Inr (s, t)"
    and "\<exists>s t. transition_score_harmonics_first a b w = Inr (s, t)"
proof -
  from assms obtain t where "classify_mix_type (key a) (key b) = Inr t"
    using classify_total [of "key a" "key b"] by (auto simp: keys_usable_def)
  then show "\<exists>s t. transition_score_bpm_first a b w = Inr (s, t)"
    and "\<exists>s t. transition_score_harmonics_first a b w = Inr (s, t)"
    by (simp_all add: transition_score_bpm_first_def transition_score_harmonics_first_def
        and_then_def Let_def)
qed

lemma index_all_map:
  "\<forall>i\<in>set p. i < length xs \<Longrightarrow> index_all xs p = Inr (map ((!) xs) p)"
  by (induction p) (simp_all add: py_index_def and_then_def)

lemma index_all_Inr:
  "index_all xs p = Inr ys \<Longrightarrow> ys = map ((!) xs) p"
proof (induction p arbitrary: ys)
  case Nil
  then show ?case by simp
next
  case (Cons i p)
  then show ?case
    by (auto simp: py_index_def and_then_def split: if_splits sum.splits)
qed

lemma mset_map_nth_all:
  assumes "distinct p" and "set p = {..<length xs}"
  shows "mset (map ((!) xs) p) = mset xs"
proof -
  have "mset p = mset [0..<length xs]"
    using assms set_eq_iff_mset_eq_distinct [of p "[0..<length xs]"]
    by (simp add: atLeast0LessThan)
  then have "mset (map ((!) xs) p) = mset (map ((!) xs) [0..<length xs])"
    by (metis mset_map)
  then show ?thesis by (simp add: map_nth)
qed

lemma sort_by_bpm_simps [simp]:
  "length (sort_by_bpm songs) = length songs"
  "set (sort_by_bpm songs) = set songs"
  "mset (sort_by_bpm songs) = mset songs"
  by (simp_all add: sort_by_bpm_def)

lemma sort_by_bpm_Nil [simp]: "sort_by_bpm songs = [] \<longleftrightarrow> songs = []"
  using sort_by_bpm_simps(1) [of songs] length_0_conv by metis

lemma upt_without_start:
  assumes "start < n"
  shows "remove1 start [0..<n] = filter (\<lambda>j. j \<notin> set [start]) [0..<n]"
  using remove1_filter_distinct [of "[0..<n]" start "\<lambda>j. True"] by simp

lemma greedy_from_start:
  fixes songs :: "'m track_scheme list"
  assumes "keys_usable songs" and "start < length songs"
    and "ts = (\<lambda>a b. transition_score_bpm_first a b w)
       \<or> ts = (\<lambda>a b. transition_score_harmonics_first a b w)"
  shows "\<exists>p. greedy_loop ts (sort_by_bpm songs) [start] (remove1 start [0..<length songs]) = Inr p
           \<and> p \<noteq> [] \<and> hd p = start \<and> distinct p \<and> set p = {..<length songs}
           \<and> (\<forall>k. 0 < k \<and> k < length p \<longrightarrow> greedy_step ts (sort_by_bpm songs) p k)"
proof -
  let ?xs = "sort_by_bpm songs"
  have total: "\<forall>i<length ?xs. \<forall>j<length ?xs. \<exists>s t. ts (?xs ! i) (?xs ! j) = Inr (s, t)"
  proof (intro allI impI)
    fix i j assume "i < length ?xs" "j < length ?xs"
    then have "?xs ! i \<in> set songs" "?xs ! j \<in> set songs"
      by (metis nth_mem sort_by_bpm_simps(2))+
    then show "\<exists>s t. ts (?xs ! i) (?xs ! j) = Inr (s, t)"
      using assms(3) scores_total [OF assms(1)] by blast
  qed
  have rem: "remove1 start [0..<length songs]
      = filter (\<lambda>j. j \<notin> set [start]) [0..<length ?xs]"
    using upt_without_start [OF assms(2)] by simp
  from greedy_loop_total [where ts = ts and xs = ?xs and path = "[start]", OF total _ _ _ rem]
  obtain p where p: "greedy_loop ts ?xs [start] (remove1 start [0..<length songs]) = Inr p"
    "take (length [start]) p = [start]" "distinct p" "set p = {..<length ?xs}"
    "\<forall>k. length [start] \<le> k \<and> k < length p \<longrightarrow> greedy_step ts ?xs p k"
    using assms(2) by auto
  from p(2) have "p \<noteq> []" "hd p = start"
    by (cases p; simp)+
  moreover have "\<forall>k. 0 < k \<and> k < length p \<longrightarrow> greedy_step ts ?xs p k"
    using p(5) by (simp add: Suc_le_eq)
  ultimately show ?thesis using p(1,3,4) by simp
qed

lemma take_Suc_snoc:
  assumes "take (Suc (length path)) p = path @ [b]"
  shows "take (length path) p = path" and "p ! length path = b" and "length path < length p"
proof -
  have "take (length path) p = take (length path) (take (Suc (length path)) p)"
    by simp
  also have "\<dots> = take (length path) (path @ [b])"
    by (simp only: assms)
  finally show "take (length path) p = path" by simp
  have "length (take (Suc (length path)) p) = Suc (length path)"
    by (simp only: assms) simp
  then show len: "length path < length p" by simp
  have "p ! length path = take (Suc (length path)) p ! length path" by simp
  also have "\<dots> = (path @ [b]) ! length path" by (simp only: assms)
  finally show "p ! length path = b" by simp
qed

lemma greedy_loop_prefix:
  "greedy_loop ts xs path rem = Inr p \<Longrightarrow> take (length path) p = path"
proof (induction ts xs path rem rule: greedy_loop.induct)
  case (1 ts xs path rem)
  show ?case
  proof (cases "rem = []")
    case True
    then show ?thesis using "1.prems" by (simp add: greedy_loop_done)
  next
    case False
    from "1.prems" False obtain cur b bs where *: "path \<noteq> []"
      "py_index xs (last path) = Inr cur"
      "scan_remaining ts xs cur rem (None, None) = Inr (Some b, bs)"
      "b \<in> set rem" "greedy_loop ts xs (path @ [b]) (remove1 b rem) = Inr p"
      by (subst (asm) greedy_loop.simps)
        (auto split: if_splits sum.splits option.splits prod.splits)
    from "1.IH" [OF False *(1) *(2) *(3) refl refl *(4) *(5)]
    have "take (Suc (length path)) p = path @ [b]" by simp
    then show ?thesis by (rule take_Suc_snoc)
  qed
qed

lemma find_start_find:
  "\<forall>i\<in>set idxs. i < length xs \<Longrightarrow>
     find_start xs idxs = Inr (find (\<lambda>i. truthy (key (xs ! i))) idxs)"
  by (induction idxs) (simp_all add: py_index_def and_then_def)

lemma find_upt_None:
  assumes "find P xs = None"
  shows "find (\<lambda>i. P (xs ! i)) [0..<length xs] = None"
  using assms by (auto simp: find_None_iff)

lemma find_upt_Some:
  assumes "find P xs = Some s"
  shows "\<exists>i. find (\<lambda>i. P (xs ! i)) [0..<length xs] = Some i \<and> i < length xs \<and> xs ! i = s"
proof -
  from assms obtain i where i: "i < length xs" "P (xs ! i)" "s = xs ! i" "\<forall>j<i. \<not> P (xs ! j)"
    by (auto simp: find_Some_iff)
  have "find (\<lambda>i. P (xs ! i)) [0..<length xs] = Some i"
    unfolding find_Some_iff
  proof (intro exI [of _ i] conjI allI impI)
    show "i < length [0..<length xs]" using i(1) by simp
    show "P (xs ! ([0..<length xs] ! i))" using i(1,2) by simp
    show "i = [0..<length xs] ! i" using i(1) by simp
    show "\<not> P (xs ! ([0..<length xs] ! j))" if "j < i" for j
      using that i(1,4) by simp
  qed
  then show ?thesis using i by blast
qed


lemma harmonic_no_key:
  fixes songs :: "'m track_scheme list"
  assumes "find (\<lambda>s. truthy (key s)) (sort_by_bpm songs) = None"
  shows "harmonic_indices songs = Inr None"
    and "build_harmonic_path songs = Inr (sort_by_bpm songs)"
proof -
  let ?xs = "sort_by_bpm songs"
  have "find_start ?xs [0..<length ?xs] = Inr None"
    using find_upt_None [OF assms] by (simp add: find_start_find)
  then show ind: "harmonic_indices songs = Inr None"
    by (simp add: harmonic_indices_def and_then_def)
  show "build_harmonic_path songs = Inr (sort_by_bpm songs)"
    by (cases "songs = []")
      (simp_all add: build_harmonic_path_def ind and_then_def sort_by_bpm_def)
qed

lemma harmonic_unfold:
  fixes songs :: "'m track_scheme list"
  assumes "find (\<lambda>s. truthy (key s)) (sort_by_bpm songs) = Some s"
  shows "\<exists>start. start < length songs \<and> sort_by_bpm songs ! start = s
           \<and> harmonic_indices songs =
               and_then (greedy_loop (\<lambda>a b. transition_score_harmonics_first a b 0.15)
                           (sort_by_bpm songs) [start] (remove1 start [0..<length songs]))
                 (\<lambda>path_indices. Inr (Some path_indices))"
proof -
  let ?xs = "sort_by_bpm songs"
  from find_upt_Some [OF assms] obtain i
    where i: "find (\<lambda>i. truthy (key (?xs ! i))) [0..<length ?xs] = Some i"
      "i < length ?xs" "?xs ! i = s"
    by blast
  have "find_start ?xs [0..<length ?xs] = Inr (Some i)"
    using i(1) by (simp add: find_start_find)
  then have "harmonic_indices songs =
      and_then (greedy_loop (\<lambda>a b. transition_score_harmonics_first a b 0.15)
                  ?xs [i] (remove1 i [0..<length songs]))
        (\<lambda>path_indices. Inr (Some path_indices))"
    using i(2) by (simp add: harmonic_indices_def and_then_def)
  then show ?thesis using i(2,3) by auto
qed

lemma harmonic_run:
  fixes songs :: "'m track_scheme list"
  assumes "keys_usable songs"
    and "find (\<lambda>s. truthy (key s)) (sort_by_bpm songs) = Some s"
  shows "\<exists>p. harmonic_indices songs = Inr (Some p)
           \<and> build_harmonic_path songs = Inr (map ((!) (sort_by_bpm songs)) p)
           \<and> p \<noteq> [] \<and> sort_by_bpm songs ! hd p = s \<and> distinct p \<and> set p = {..<length songs}
           \<and> (\<forall>k. 0 < k \<and> k < length p \<longrightarrow>
                 greedy_step (\<lambda>a b. transition_score_harmonics_first a b 0.15)
                   (sort_by_bpm songs) p k)"
proof -
  let ?ts = "\<lambda>(a :: 'm track_scheme) b. transition_score_harmonics_first a b 0.15"
  let ?xs = "sort_by_bpm songs"
  from harmonic_unfold [OF assms(2)] obtain start
    where start: "start < length songs" "?xs ! start = s"
      "harmonic_indices songs =
         and_then (greedy_loop ?ts ?xs [start] (remove1 start [0..<length songs]))
           (\<lambda>path_indices. Inr (Some path_indices))"
    by blast
  from greedy_from_start [where ts = ?ts and w = "0.15", OF assms(1) start(1)]
  obtain p where p: "greedy_loop ?ts ?xs [start] (remove1 start [0..<length songs]) = Inr p"
    "p \<noteq> []" "hd p = start" "distinct p" "set p = {..<length songs}"
    "\<forall>k. 0 < k \<and> k < length p \<longrightarrow> greedy_step ?ts ?xs p k"
    by blast
  have ind: "harmonic_indices songs = Inr (Some p)"
    unfolding start(3) p(1) by (simp add: and_then_def)
  have ne: "songs \<noteq> []" using start(1) by auto
  have "index_all ?xs p = Inr (map ((!) ?xs) p)"
    using p(5) by (intro index_all_map) simp
  then have "build_harmonic_path songs = Inr (map ((!) ?xs) p)"
    using ne ind by (simp add: build_harmonic_path_def and_then_def)
  with ind p start(2) show ?thesis by blast
qed

lemma harmonic_starts_at_key:
  fixes songs :: "'m track_scheme list"
  assumes "build_harmonic_path songs = Inr ys"
    and "find (\<lambda>s. truthy (key s)) (sort_by_bpm songs) = Some s"
  shows "ys \<noteq> [] \<and> hd ys = s"
proof -
  let ?ts = "\<lambda>(a :: 'm track_scheme) b. transition_score_harmonics_first a b 0.15"
  let ?xs = "sort_by_bpm songs"
  from harmonic_unfold [OF assms(2)] obtain start
    where start: "start < length songs" "?xs ! start = s"
      "harmonic_indices songs =
         and_then (greedy_loop ?ts ?xs [start] (remove1 start [0..<length songs]))
           (\<lambda>path_indices. Inr (Some path_indices))"
    by blast
  have ne: "songs \<noteq> []" using start(1) by auto
  from assms(1) ne obtain p
    where p: "greedy_loop ?ts ?xs [start] (remove1 start [0..<length songs]) = Inr p"
      and ys: "index_all ?xs p = Inr ys"
    by (auto simp: build_harmonic_path_def start(3) and_then_def split: sum.splits)
  from greedy_loop_prefix [OF p] have "take 1 p = [start]" by simp
  then have "p \<noteq> []" "hd p = start" by (cases p; simp)+
  moreover have "ys = map ((!) ?xs) p" using ys by (rule index_all_Inr)
  ultimately show ?thesis using start(2) by (simp add: hd_map)
qed

section \<open>The builders' results\<close>









lemma harmonic_permutes:
  assumes "keys_usable songs"
  shows "\<exists>ys. build_harmonic_path songs = Inr ys \<and> mset ys = mset songs"
proof (cases "find (\<lambda>s. truthy (key s)) (sort_by_bpm songs)")
  case None
  then show ?thesis by (simp add: harmonic_no_key)
next
  case (Some s)
  from harmonic_run [OF assms Some] obtain p
    where p: "build_harmonic_path songs = Inr (map ((!) (sort_by_bpm songs)) p)"
      "distinct p" "set p = {..<length songs}"
    by blast
  have "mset (map ((!) (sort_by_bpm songs)) p) = mset (sort_by_bpm songs)"
    using p(2,3) by (intro mset_map_nth_all) simp_all
  then show ?thesis using p(1) by simp
qed


text \<open>
  Claim C9. When no record has a key (\<^verbatim>\<open>None\<close> and the empty string count as none), the
  harmonic-first builder returns the BPM-sorted list as it is. When some record has a
  key, the greedy loop is entered with a path that holds only the index of the first
  record with a key in BPM-sorted order, and every result the builder returns starts
  with that record. The builder returns whenever every key is absent or decodable.
\<close>

theorem harmonic_start:
  "((\<forall>s\<in>set songs. \<not> truthy (key s)) \<longrightarrow>
        build_harmonic_path songs = Inr (sort_by_bpm songs))
   \<and> (\<forall>s. find (\<lambda>s. truthy (key s)) (sort_by_bpm songs) = Some s \<longrightarrow>
        (\<exists>start. start < length songs \<and> sort_by_bpm songs ! start = s
           \<and> harmonic_indices songs =
               and_then (greedy_loop (\<lambda>a b. transition_score_harmonics_first a b 0.15)
                           (sort_by_bpm songs) [start] (remove1 start [0..<length songs]))
                 (\<lambda>path_indices. Inr (Some path_indices))))
   \<and> (\<forall>ys s. build_harmonic_path songs = Inr ys
          \<and> find (\<lambda>s. truthy (key s)) (sort_by_bpm songs) = Some s \<longrightarrow>
        ys \<noteq> [] \<and> hd ys = s)
   \<and> (keys_usable songs \<longrightarrow> (\<exists>ys. build_harmonic_path songs = Inr ys))"
proof (intro conjI allI impI)
  fix s
  assume "find (\<lambda>s. truthy (key s)) (sort_by_bpm songs) = Some s"
  then show "\<exists>start. start < length songs \<and> sort_by_bpm songs ! start = s
           \<and> harmonic_indices songs =
               and_then (greedy_loop (\<lambda>a b. transition_score_harmonics_first a b 0.15)
                           (sort_by_bpm songs) [start] (remove1 start [0..<length songs]))
                 (\<lambda>path_indices. Inr (Some path_indices))"
    by (rule harmonic_unfold)
next
  assume "\<forall>s\<in>set songs. \<not> truthy (key s)"
  then have "find (\<lambda>s. truthy (key s)) (sort_by_bpm songs) = None"
    by (simp add: find_None_iff)
  then show "build_harmonic_path songs = Inr (sort_by_bpm songs)"
    by (rule harmonic_no_key)
next
  fix ys s
  assume *: "build_harmonic_path songs = Inr ys
    \<and> find (\<lambda>s. truthy (key s)) (sort_by_bpm songs) = Some s"
  then show "ys \<noteq> []" "hd ys = s"
    using harmonic_starts_at_key [of songs ys s] by simp_all
next
  assume "keys_usable songs"
  then show "\<exists>ys. build_harmonic_path songs = Inr ys"
    using harmonic_permutes by blast
qed


section \<open>The builders on the example playlists\<close>

lemmas run_eval = build_bpm_first_path_def bpm_first_indices_def build_harmonic_path_def
  harmonic_indices_def sort_by_bpm_def bpm_sort_key_def greedy_loop.simps py_index_def
  and_then_def exceeds_def truthy_def transition_score_bpm_first_def
  transition_score_harmonics_first_def mix_score_def MIX_SCORES_def rule_defs key_eval
  camelot_increment_def Let_def upt_conv_Cons


text \<open>
  Without any key the BPM order comes back; with the lowest BPM lacking a key the path
  starts at 110/8A, the first record in BPM order that has one.
\<close>

theorem harmonic_start_witness:
  "build_harmonic_path no_key_songs = Inr (sort_by_bpm no_key_songs)
   \<and> sort_by_bpm no_key_songs
       = [\<lparr>song = Some ''b'', artist = None, bpm = Some 120, key = Some []\<rparr>,
          \<lparr>song = Some ''a'', artist = None, bpm = Some 130, key = None\<rparr>]
   \<and> find (\<lambda>s. truthy (key s)) (sort_by_bpm late_key_songs)
       = Some \<lparr>song = Some ''c'', artist = None, bpm = Some 110, key = Some ''8A''\<rparr>
   \<and> build_harmonic_path late_key_songs
       = Inr [\<lparr>song = Some ''c'', artist = None, bpm = Some 110, key = Some ''8A''\<rparr>,
              \<lparr>song = Some ''a'', artist = None, bpm = Some 120, key = Some ''9A''\<rparr>,
              \<lparr>song = Some ''b'', artist = None, bpm = Some 100, key = None\<rparr>]
   \<and> hd [\<lparr>song = Some ''c'', artist = None, bpm = Some 110, key = Some ''8A''\<rparr>,
          \<lparr>song = Some ''a'', artist = None, bpm = Some 120, key = Some ''9A''\<rparr>,
          \<lparr>song = Some ''b'', artist = None, bpm = Some 100, key = None\<rparr>]
       = \<lparr>song = Some ''c'', artist = None, bpm = Some 110, key = Some ''8A''\<rparr>
   \<and> keys_usable late_key_songs"
proof -
  have nk: "\<forall>s\<in>set no_key_songs. \<not> truthy (key s)"
    by (simp add: no_key_songs_def truthy_def)
  have s: "sort_by_bpm no_key_songs
       = [\<lparr>song = Some ''b'', artist = None, bpm = Some 120, key = Some []\<rparr>,
          \<lparr>song = Some ''a'', artist = None, bpm = Some 130, key = None\<rparr>]"
    by (simp add: no_key_songs_def sort_by_bpm_def bpm_sort_key_def)
  have f: "find (\<lambda>s. truthy (key s)) (sort_by_bpm late_key_songs)
       = Some \<lparr>song = Some ''c'', artist = None, bpm = Some 110, key = Some ''8A''\<rparr>"
    by (simp add: late_key_songs_def sort_by_bpm_def bpm_sort_key_def truthy_def)
  have u: "keys_usable late_key_songs"
    by (simp add: late_key_songs_def keys_usable_def key_decodable_def key_eval)
  have b: "build_harmonic_path late_key_songs
       = Inr [\<lparr>song = Some ''c'', artist = None, bpm = Some 110, key = Some ''8A''\<rparr>,
              \<lparr>song = Some ''a'', artist = None, bpm = Some 120, key = Some ''9A''\<rparr>,
              \<lparr>song = Some ''b'', artist = None, bpm = Some 100, key = None\<rparr>]"
    by (simp add: late_key_songs_def run_eval)
  from harmonic_start [of no_key_songs] nk
  have 1: "build_harmonic_path no_key_songs = Inr (sort_by_bpm no_key_songs)" by blast
  from harmonic_start [of late_key_songs] b f
  have 2: "hd [\<lparr>song = Some ''c'', artist = None, bpm = Some 110, key = Some ''8A''\<rparr>,
          \<lparr>song = Some ''a'', artist = None, bpm = Some 120, key = Some ''9A''\<rparr>,
          \<lparr>song = Some ''b'', artist = None, bpm = Some 100, key = None\<rparr>]
       = \<lparr>song = Some ''c'', artist = None, bpm = Some 110, key = Some ''8A''\<rparr>"
    by blast
  from 1 s f b 2 u show ?thesis by blast
qed


end
